theory Spec2Isabelle
  imports Complex_Main "HOL-Library.Multiset"
begin

section \<open>Data model of home2school.py\<close>

text \<open>
  Location objects are mutable Python objects that are compared by identity: the class
  defines neither \<^verbatim>\<open>__eq__\<close> nor \<^verbatim>\<open>__cmp__\<close>, so \<^verbatim>\<open>==\<close> and \<^verbatim>\<open>in\<close> on
  Locations compare references. A Location is therefore modelled by its reference, a
  value of a type \<open>'v\<close>, and the attributes of all Location objects live in a store
  (\<open>heap\<close>) from references to attribute records. A graph is finite: \<open>'v\<close> is a type
  of class \<open>finite\<close> wherever the traversal is defined.

  Coordinates and distances are Python numbers; \<^verbatim>\<open>math.sqrt\<close> and the floating
  point sum are idealised as the real square root and real addition. The recursion
  limit of the interpreter is not modelled: the call stack is unbounded.
\<close>

datatype error = AssertionError

record 'v Location =
  name :: string
  x :: real
  y :: real
  connectedLocations :: "'v list"

type_synonym 'v heap = "'v \<Rightarrow> 'v Location"

record 'v Path =
  locations :: "'v list"

text \<open>
  A Walker is never modified after its construction and is only ever compared with
  \<^verbatim>\<open>None\<close>, so it is a value: its location and its optional previous walker.
  \<open>startLocation\<close> is \<^verbatim>\<open>getLocation\<close>, \<open>previousWalker\<close> is \<^verbatim>\<open>getPreviousWalker\<close>.
\<close>

datatype 'v Walker = Walker (startLocation: 'v) (previousWalker: "'v Walker option")

section \<open>Location\<close>

text \<open>
  The attributes of the class itself, which an object has before \<^verbatim>\<open>__init__\<close> sets
  its own (the name \<^verbatim>\<open>None\<close> is the empty string here).
\<close>

definition Location_class :: "'v heap" where
  "Location_class = (\<lambda>self. \<lparr>name = [], x = 0, y = 0, connectedLocations = []\<rparr>)"

text \<open>\<^verbatim>\<open>Location.__init__\<close>: the object at reference \<open>self\<close> gets its attributes.\<close>

definition Location_init :: "'v \<Rightarrow> string \<Rightarrow> real \<Rightarrow> real \<Rightarrow> 'v heap \<Rightarrow> 'v heap" where
  "Location_init self nm xc yc h =
     h(self := \<lparr>name = nm, x = xc, y = yc, connectedLocations = []\<rparr>)"

definition getName :: "'v heap \<Rightarrow> 'v \<Rightarrow> string" where
  "getName h self = name (h self)"

definition connectTo :: "'v \<Rightarrow> 'v \<Rightarrow> 'v heap \<Rightarrow> 'v heap" where
  "connectTo self location h =
     h(self := (h self)\<lparr>connectedLocations := connectedLocations (h self) @ [location]\<rparr>)"

definition getConnectedLocations :: "'v heap \<Rightarrow> 'v \<Rightarrow> 'v list" where
  "getConnectedLocations h self = connectedLocations (h self)"

definition distanceTo :: "'v heap \<Rightarrow> 'v \<Rightarrow> 'v \<Rightarrow> real" where
  "distanceTo h self location =
     sqrt ((x (h self) - x (h location))\<^sup>2 + (y (h self) - y (h location))\<^sup>2)"

section \<open>Path\<close>

definition Path_init :: "'v Path" where
  "Path_init = \<lparr>locations = []\<rparr>"

text \<open>
  \<^verbatim>\<open>Path.addLocation\<close>: the assertion is the only statement that can fail; the
  updated path is returned.
\<close>

definition addLocation :: "'v heap \<Rightarrow> 'v Path \<Rightarrow> 'v \<Rightarrow> error + 'v Path" where
  "addLocation h self location =
     (if length (locations self) > 0 then
        (let lastLocationIndex = length (locations self) - 1;
             lastLocation = locations self ! lastLocationIndex
         in if location \<in> set (getConnectedLocations h lastLocation)
            then Inr (self\<lparr>locations := locations self @ [location]\<rparr>)
            else Inl AssertionError)
      else Inr (self\<lparr>locations := locations self @ [location]\<rparr>))"

text \<open>
  \<^verbatim>\<open>Path.getDistance\<close>: \<open>pathSegments\<close> is \<open>-1\<close> for the empty path, and
  \<^verbatim>\<open>range\<close> of a negative number is empty.
\<close>

definition getDistance :: "'v heap \<Rightarrow> 'v Path \<Rightarrow> real" where
  "getDistance h self =
     (let d = 0;
          pathSegments = int (length (locations self)) - 1
      in fold (\<lambda>i d. d + distanceTo h (locations self ! i) (locations self ! (i + 1)))
           [0..<nat pathSegments] d)"

section \<open>Walker\<close>

fun isVisited :: "'v Walker \<Rightarrow> 'v \<Rightarrow> bool" where
  "isVisited (Walker loc prev) location =
     (if loc = location then True
      else (case prev of None \<Rightarrow> False | Some w \<Rightarrow> isVisited w location))"

text \<open>
  The while loop of \<^verbatim>\<open>_fanout\<close> that follows the previous walkers and appends
  their locations to the local list.
\<close>

fun collect :: "'v Walker option \<Rightarrow> 'v list \<Rightarrow> 'v list" where
  "collect None locs = locs"
| "collect (Some (Walker loc prev)) locs = collect prev (locs @ [loc])"

text \<open>
  The for loop of \<^verbatim>\<open>_fanout\<close> that adds the locations to the new path; a failed
  assertion leaves the loop.
\<close>

fun addLocations :: "'v heap \<Rightarrow> 'v Path \<Rightarrow> 'v list \<Rightarrow> error + 'v Path" where
  "addLocations h path [] = Inr path"
| "addLocations h path (location # rest) =
     (case addLocation h path location of
        Inl err \<Rightarrow> Inl err
      | Inr path' \<Rightarrow> addLocations h path' rest)"

text \<open>The locations of a walker and of the walkers before it, the walker's own first.\<close>

fun chain :: "'v Walker \<Rightarrow> 'v list" where
  "chain (Walker loc None) = [loc]"
| "chain (Walker loc (Some w)) = loc # chain w"

text \<open>
  \<^verbatim>\<open>Walker._fanout\<close>. The list \<open>paths\<close> is shared and appended to, so it is passed
  in and returned; the store of the Location objects is passed through every call as
  well, so that what a walk does to it can be stated. \<open>fanout_loop\<close> is the for loop
  over the connected locations: Python iterates over the live list by index, so the
  loop reads entry \<open>i\<close> of the list in the current store.
\<close>

function fanout ::
    "('v::finite) Walker \<Rightarrow> 'v Path list \<Rightarrow> 'v \<Rightarrow> 'v heap \<Rightarrow> error + ('v Path list \<times> 'v heap)"
  and fanout_loop ::
    "('v::finite) Walker \<Rightarrow> nat \<Rightarrow> 'v Path list \<Rightarrow> 'v \<Rightarrow> 'v heap \<Rightarrow> error + ('v Path list \<times> 'v heap)"
where
  "fanout self paths endLocation h =
     (if startLocation self = endLocation then
        (let locs = collect (previousWalker self) [startLocation self]
         in case addLocations h Path_init (rev locs) of
              Inl err \<Rightarrow> Inl err
            | Inr path \<Rightarrow> Inr (paths @ [path], h))
      else fanout_loop self 0 paths endLocation h)"
| "fanout_loop self i paths endLocation h =
     (let connections = getConnectedLocations h (startLocation self)
      in if i < length connections then
           (let connectedLocation = connections ! i
            in if \<not> isVisited self connectedLocation then
                 (case fanout (Walker connectedLocation (Some self)) paths endLocation h of
                    Inl err \<Rightarrow> Inl err
                  | Inr (paths', h') \<Rightarrow> fanout_loop self (Suc i) paths' endLocation h')
               else fanout_loop self (Suc i) paths endLocation h)
         else Inr (paths, h))"
  by pat_completeness auto

lemma isVisited_chain: "isVisited w c \<longleftrightarrow> c \<in> set (chain w)"
  by (induction w rule: chain.induct) auto

lemma card_unvisited_less:
  fixes w :: "('v::finite) Walker"
  assumes "\<not> isVisited w c"
  shows "card (UNIV - set (chain (Walker c (Some w)))) < card (UNIV - set (chain w))"
proof (rule psubset_card_mono)
  show "finite (UNIV - set (chain w))" by simp
  from assms show "UNIV - set (chain (Walker c (Some w))) \<subset> UNIV - set (chain w)"
    by (auto simp: isVisited_chain)
qed

text \<open>
  Where a call of \<open>fanout\<close> returns, it returns the store it was given. The loop needs
  this to terminate: its bound is the length of a list in the store.
\<close>

lemma fanout_heap_partial:
  "fanout_fanout_loop_dom (Inl (self, paths, e, h)) \<Longrightarrow>
     fanout self paths e h = Inr (ps, h') \<Longrightarrow> h' = h"
  "fanout_fanout_loop_dom (Inr (self, i, paths, e, h)) \<Longrightarrow>
     fanout_loop self i paths e h = Inr (ps, h') \<Longrightarrow> h' = h"
proof (induction self paths e h and self i paths e h arbitrary: ps h' and ps h'
    rule: fanout_fanout_loop.pinduct)
  case (1 self paths endLocation h)
  then show ?case
    by (auto simp: fanout.psimps Let_def split: if_splits sum.splits)
next
  case (2 self i paths endLocation h)
  show ?case
  proof (cases "i < length (getConnectedLocations h (startLocation self))")
    case False
    with 2 show ?thesis by (simp add: fanout_loop.psimps)
  next
    case inr: True
    show ?thesis
    proof (cases "isVisited self (getConnectedLocations h (startLocation self) ! i)")
      case True
      with inr 2 show ?thesis by (simp add: fanout_loop.psimps)
    next
      case False
      with inr "2.prems" "2.hyps" obtain ps1 h1 where
        r: "fanout (Walker (getConnectedLocations h (startLocation self) ! i) (Some self))
              paths endLocation h = Inr (ps1, h1)"
        and l: "fanout_loop self (Suc i) ps1 endLocation h1 = Inr (ps, h')"
        by (auto simp: fanout_loop.psimps Let_def split: sum.splits)
      from "2.IH"(1)[OF refl inr refl False r] have "h1 = h" .
      moreover from "2.IH"(2)[OF refl inr refl False r refl l] have "h' = h1" .
      ultimately show ?thesis by simp
    qed
  qed
qed

text \<open>
  Every call of \<open>fanout\<close> from the loop is on a walker with one more location, which
  is not on the chain so far: the number of locations off the chain decreases. The
  loop itself counts up to the length of the list.
\<close>

termination fanout
proof (relation "inv_image (less_than <*lex*> less_than <*lex*> less_than)
    (\<lambda>v. case v of
        Inl (w, paths, e, h) \<Rightarrow> (card (UNIV - set (chain w)), 1::nat, 0::nat)
      | Inr (w, i, paths, e, h) \<Rightarrow>
          (card (UNIV - set (chain w)), 0,
           length (getConnectedLocations h (startLocation w)) - i))",
    goal_cases)
  case 1
  then show ?case by (intro wf_inv_image wf_lex_prod wf_less_than)
next
  case (2 self paths endLocation h)
  then show ?case by simp
next
  case (3 self i paths endLocation h cs c)
  then show ?case
    using card_unvisited_less[of self c] by simp
next
  case (4 self i paths endLocation h cs c r ps h')
  then show ?case
    using fanout_heap_partial(1)[of "Walker c (Some self)" paths endLocation h ps h']
    by auto
next
  case (5 self i paths endLocation h cs c)
  then show ?case by auto
qed

text \<open>\<^verbatim>\<open>Walker.walk\<close>: a new empty list, filled by \<^verbatim>\<open>_fanout\<close> and returned.\<close>

definition walk :: "('v::finite) Walker \<Rightarrow> 'v \<Rightarrow> 'v heap \<Rightarrow> error + ('v Path list \<times> 'v heap)" where
  "walk self endLocation h = (let paths = [] in fanout self paths endLocation h)"

section \<open>The walk with the Path objects in the store\<close>

text \<open>
  Two calls of \<^verbatim>\<open>walk\<close> in one run of the interpreter share its store: the second
  call runs after the first has created its Path objects. To compare such calls, the
  walk is modelled a second time with the Path objects as objects: a Path is a
  reference (a number, in the order of creation), the store holds the attributes of
  the Location objects and of the Path objects, and \<open>allocated\<close> is the number of
  Path objects created so far. The list \<open>paths\<close> is a list of references.
\<close>

record 'v world =
  Location_objects :: "'v heap"
  Path_objects :: "nat \<Rightarrow> 'v Path"
  allocated :: nat

text \<open>
  \<^verbatim>\<open>Path()\<close>: a new object, whose reference is \<open>allocated W\<close>, and
  \<^verbatim>\<open>Path.__init__\<close> gives it a list of its own.
\<close>

definition Path_new :: "'v world \<Rightarrow> 'v world" where
  "Path_new W =
     W\<lparr>Path_objects := (Path_objects W)(allocated W := Path_init),
       allocated := Suc (allocated W)\<rparr>"

text \<open>
  \<^verbatim>\<open>Path.addLocation\<close> on the object \<open>self\<close>: the check and the new attribute
  are those of \<open>addLocation\<close>, and the object is updated in the store.
\<close>

definition addLocation_obj :: "nat \<Rightarrow> 'v \<Rightarrow> 'v world \<Rightarrow> error + 'v world" where
  "addLocation_obj self location W =
     (case addLocation (Location_objects W) (Path_objects W self) location of
        Inl err \<Rightarrow> Inl err
      | Inr p \<Rightarrow> Inr (W\<lparr>Path_objects := (Path_objects W)(self := p)\<rparr>))"

text \<open>The for loop of \<^verbatim>\<open>_fanout\<close> over the reversed list, on the new object.\<close>

fun addLocations_obj :: "nat \<Rightarrow> 'v list \<Rightarrow> 'v world \<Rightarrow> error + 'v world" where
  "addLocations_obj path [] W = Inr W"
| "addLocations_obj path (location # rest) W =
     (case addLocation_obj path location W of
        Inl err \<Rightarrow> Inl err
      | Inr W' \<Rightarrow> addLocations_obj path rest W')"

text \<open>
  \<^verbatim>\<open>Walker._fanout\<close> and its loop over the connected locations, as \<open>fanout\<close>
  and \<open>fanout_loop\<close> above, with the store of all objects passed through.
\<close>

function fanout_obj ::
    "('v::finite) Walker \<Rightarrow> nat list \<Rightarrow> 'v \<Rightarrow> 'v world \<Rightarrow> error + (nat list \<times> 'v world)"
  and fanout_loop_obj ::
    "('v::finite) Walker \<Rightarrow> nat \<Rightarrow> nat list \<Rightarrow> 'v \<Rightarrow> 'v world \<Rightarrow> error + (nat list \<times> 'v world)"
where
  "fanout_obj self paths endLocation W =
     (if startLocation self = endLocation then
        (let locs = collect (previousWalker self) [startLocation self];
             path = allocated W;
             W1 = Path_new W
         in case addLocations_obj path (rev locs) W1 of
              Inl err \<Rightarrow> Inl err
            | Inr W2 \<Rightarrow> Inr (paths @ [path], W2))
      else fanout_loop_obj self 0 paths endLocation W)"
| "fanout_loop_obj self i paths endLocation W =
     (let connections = getConnectedLocations (Location_objects W) (startLocation self)
      in if i < length connections then
           (let connectedLocation = connections ! i
            in if \<not> isVisited self connectedLocation then
                 (case fanout_obj (Walker connectedLocation (Some self)) paths endLocation W of
                    Inl err \<Rightarrow> Inl err
                  | Inr (paths', W') \<Rightarrow> fanout_loop_obj self (Suc i) paths' endLocation W')
               else fanout_loop_obj self (Suc i) paths endLocation W)
         else Inr (paths, W))"
  by pat_completeness auto

lemma addLocation_obj_Locations:
  "addLocation_obj r l W = Inr W' \<Longrightarrow> Location_objects W' = Location_objects W"
  by (auto simp: addLocation_obj_def split: sum.splits)

lemma addLocations_obj_Locations:
  "addLocations_obj r ls W = Inr W' \<Longrightarrow> Location_objects W' = Location_objects W"
proof (induction ls arbitrary: W)
  case Nil
  then show ?case by simp
next
  case (Cons l ls)
  from Cons.prems obtain W1 where a: "addLocation_obj r l W = Inr W1"
    and b: "addLocations_obj r ls W1 = Inr W'"
    by (auto split: sum.splits)
  from Cons.IH[OF b] addLocation_obj_Locations[OF a] show ?case by simp
qed

lemma Path_new_Locations [simp]: "Location_objects (Path_new W) = Location_objects W"
  by (simp add: Path_new_def)

lemma fanout_obj_Locations_partial:
  "fanout_obj_fanout_loop_obj_dom (Inl (self, paths, e, W)) \<Longrightarrow>
     fanout_obj self paths e W = Inr (ps, W') \<Longrightarrow> Location_objects W' = Location_objects W"
  "fanout_obj_fanout_loop_obj_dom (Inr (self, i, paths, e, W)) \<Longrightarrow>
     fanout_loop_obj self i paths e W = Inr (ps, W') \<Longrightarrow> Location_objects W' = Location_objects W"
proof (induction self paths e W and self i paths e W arbitrary: ps W' and ps W'
    rule: fanout_obj_fanout_loop_obj.pinduct)
  case (1 self paths endLocation W)
  show ?case
  proof (cases "startLocation self = endLocation")
    case True
    with "1.prems" "1.hyps" obtain W2 where
      "addLocations_obj (allocated W)
         (rev (collect (previousWalker self) [startLocation self])) (Path_new W) = Inr W2"
      and "W' = W2"
      by (auto simp: fanout_obj.psimps Let_def split: sum.splits)
    with addLocations_obj_Locations[of "allocated W" _ "Path_new W" W2] show ?thesis by simp
  next
    case False
    with "1.prems" "1.hyps" have "fanout_loop_obj self 0 paths endLocation W = Inr (ps, W')"
      by (simp add: fanout_obj.psimps)
    from "1.IH"[OF False this] show ?thesis .
  qed
next
  case (2 self i paths endLocation W)
  let ?cs = "getConnectedLocations (Location_objects W) (startLocation self)"
  show ?case
  proof (cases "i < length ?cs")
    case False
    with "2.prems" "2.hyps" show ?thesis by (simp add: fanout_loop_obj.psimps)
  next
    case inr: True
    show ?thesis
    proof (cases "isVisited self (?cs ! i)")
      case True
      with inr "2.prems" "2.hyps"
      have "fanout_loop_obj self (Suc i) paths endLocation W = Inr (ps, W')"
        by (simp add: fanout_loop_obj.psimps)
      from "2.IH"(3)[OF refl inr refl _ this] True show ?thesis by simp
    next
      case False
      with inr "2.prems" "2.hyps" obtain ps1 W1 where
        r: "fanout_obj (Walker (?cs ! i) (Some self)) paths endLocation W = Inr (ps1, W1)"
        and l: "fanout_loop_obj self (Suc i) ps1 endLocation W1 = Inr (ps, W')"
        by (auto simp: fanout_loop_obj.psimps Let_def split: sum.splits)
      from "2.IH"(1)[OF refl inr refl False r]
      have "Location_objects W1 = Location_objects W" .
      moreover from "2.IH"(2)[OF refl inr refl False r refl l]
      have "Location_objects W' = Location_objects W1" .
      ultimately show ?thesis by simp
    qed
  qed
qed

termination fanout_obj
proof (relation "inv_image (less_than <*lex*> less_than <*lex*> less_than)
    (\<lambda>v. case v of
        Inl (w, paths, e, W) \<Rightarrow> (card (UNIV - set (chain w)), 1::nat, 0::nat)
      | Inr (w, i, paths, e, W) \<Rightarrow>
          (card (UNIV - set (chain w)), 0,
           length (getConnectedLocations (Location_objects W) (startLocation w)) - i))",
    goal_cases)
  case 1
  then show ?case by (intro wf_inv_image wf_lex_prod wf_less_than)
next
  case (2 self paths endLocation W)
  then show ?case by simp
next
  case (3 self i paths endLocation W cs c)
  then show ?case
    using card_unvisited_less[of self c] by simp
next
  case (4 self i paths endLocation W cs c r ps W')
  then show ?case
    using fanout_obj_Locations_partial(1)[of "Walker c (Some self)" paths endLocation W ps W']
    by auto
next
  case (5 self i paths endLocation W cs c)
  then show ?case by auto
qed

text \<open>\<^verbatim>\<open>Walker.walk\<close> with the Path objects in the store.\<close>

definition walk_obj ::
    "('v::finite) Walker \<Rightarrow> 'v \<Rightarrow> 'v world \<Rightarrow> error + (nat list \<times> 'v world)" where
  "walk_obj self endLocation W = (let paths = [] in fanout_obj self paths endLocation W)"

text \<open>
  The store after \<open>new\<close> more Path objects with the given attributes, the references
  of these objects, and the location sequences of a list of Path references.
\<close>

definition alloc_paths :: "'v Path list \<Rightarrow> 'v world \<Rightarrow> 'v world" where
  "alloc_paths new W =
     W\<lparr>Path_objects :=
         (\<lambda>r. if allocated W \<le> r \<and> r < allocated W + length new
              then new ! (r - allocated W) else Path_objects W r),
       allocated := allocated W + length new\<rparr>"

definition new_refs :: "'v world \<Rightarrow> 'v Path list \<Rightarrow> nat list" where
  "new_refs W new = [allocated W ..< allocated W + length new]"

definition routes_of :: "'v world \<Rightarrow> nat list \<Rightarrow> 'v list list" where
  "routes_of W rs = map (\<lambda>r. locations (Path_objects W r)) rs"

section \<open>Recursive calls, reachability and routes\<close>

text \<open>
  The recursive calls of \<^verbatim>\<open>_fanout\<close> (line 193 of the source): the frame \<open>self\<close>,
  which is not at the end location, calls \<^verbatim>\<open>_fanout\<close> on a new walker for a
  connected location that it has not visited.
\<close>

inductive spawns :: "'v heap \<Rightarrow> 'v \<Rightarrow> 'v Walker \<Rightarrow> 'v Walker \<Rightarrow> bool"
  for h :: "'v heap" and endLocation :: 'v
where
  spawn: "startLocation self \<noteq> endLocation \<Longrightarrow>
     i < length (getConnectedLocations h (startLocation self)) \<Longrightarrow>
     connectedLocation = getConnectedLocations h (startLocation self) ! i \<Longrightarrow>
     \<not> isVisited self connectedLocation \<Longrightarrow>
     spawns h endLocation self (Walker connectedLocation (Some self))"

text \<open>
  Reachability along connections: \<open>reachable h a b\<close> when \<open>b\<close> is \<open>a\<close> or is reached
  from \<open>a\<close> by following connected locations.
\<close>

inductive reachable :: "'v heap \<Rightarrow> 'v \<Rightarrow> 'v \<Rightarrow> bool" for h :: "'v heap" where
  reachable_refl: "reachable h a a"
| reachable_step: "reachable h a b \<Longrightarrow> c \<in> set (getConnectedLocations h b) \<Longrightarrow> reachable h a c"

text \<open>\<open>connects h a b\<close>: \<open>b\<close> is among the connected locations of \<open>a\<close>.\<close>

definition connects :: "'v heap \<Rightarrow> 'v \<Rightarrow> 'v \<Rightarrow> bool" where
  "connects h a b \<longleftrightarrow> b \<in> set (getConnectedLocations h a)"

text \<open>
  A path that \<open>fanout\<close> on walker \<open>w\<close> may add: it starts with the chain of \<open>w\<close>
  (in the order of the walk), every step of it is a connection, no location repeats
  and it ends at the end location.
\<close>

definition extends :: "'v heap \<Rightarrow> 'v Walker \<Rightarrow> 'v \<Rightarrow> 'v Path \<Rightarrow> bool" where
  "extends h w e p \<longleftrightarrow>
     (\<exists>sfx. locations p = rev (chain w) @ sfx) \<and>
     successively (connects h) (locations p) \<and> distinct (locations p) \<and>
     last (locations p) = e"

text \<open>The routes of a list of paths by the names of their locations, as a multiset.\<close>

definition route_names :: "'v heap \<Rightarrow> 'v Path list \<Rightarrow> string list multiset" where
  "route_names h ps = mset (map (\<lambda>p. map (getName h) (locations p)) ps)"

section \<open>The graph of \<^verbatim>\<open>main\<close>\<close>

text \<open>
  The five Location objects that \<^verbatim>\<open>main\<close> creates, named as its local variables.
\<close>

datatype place = home | shop | park | library | school

instance place :: finite
proof
  have u: "(UNIV :: place set) = {home, shop, park, library, school}"
    by (auto intro: place.exhaust)
  show "finite (UNIV :: place set)" unfolding u by simp
qed

text \<open>
  The store after the set-up of \<^verbatim>\<open>main\<close>: the constructor calls and the nine
  \<^verbatim>\<open>connectTo\<close> calls, in the order of the source.
\<close>

definition main_graph :: "place heap" where
  "main_graph =
     (let h = Location_class;
          h = Location_init home ''Home'' 10 10 h;
          h = Location_init shop ''Shop'' 10 20 h;
          h = Location_init park ''Park'' 20 20 h;
          h = Location_init library ''Library'' 25 10 h;
          h = Location_init school ''School'' 30 20 h;
          h = connectTo home shop h;
          h = connectTo home park h;
          h = connectTo home library h;
          h = connectTo shop park h;
          h = connectTo park school h;
          h = connectTo park home h;
          h = connectTo park library h;
          h = connectTo library park h;
          h = connectTo library school h
      in h)"

text \<open>Two Location objects with the same name and coordinates, the first connected to the second.\<close>

definition twins :: "place heap" where
  "twins =
     (let h = Location_class;
          h = Location_init home ''Twin'' 1 1 h;
          h = Location_init shop ''Twin'' 1 1 h;
          h = connectTo home shop h
      in h)"

text \<open>The store of \<^verbatim>\<open>main\<close> before its walk: no Path object has been created.\<close>

definition main_world :: "place world" where
  "main_world = \<lparr>Location_objects = main_graph, Path_objects = (\<lambda>r. Path_init), allocated = 0\<rparr>"

section \<open>Chains and routes\<close>

lemma chain_Walker:
  "chain (Walker loc prev) = loc # (case prev of None \<Rightarrow> [] | Some w \<Rightarrow> chain w)"
  by (cases prev) simp_all

lemma chain_not_Nil [simp]: "chain w \<noteq> []"
  by (cases w) (simp add: chain_Walker)

lemma hd_chain [simp]: "hd (chain w) = startLocation w"
  by (cases w) (simp add: chain_Walker)

lemma collect_chain:
  "collect p locs = locs @ (case p of None \<Rightarrow> [] | Some w \<Rightarrow> chain w)"
  by (induction p locs rule: collect.induct) (simp_all add: chain_Walker)

lemma collect_previous: "collect (previousWalker w) [startLocation w] = chain w"
  by (cases w) (simp add: collect_chain chain_Walker)

lemma addLocation_connected:
  "locations p = [] \<or> connects h (last (locations p)) l \<Longrightarrow>
     addLocation h p l = Inr (p\<lparr>locations := locations p @ [l]\<rparr>)"
  by (cases "locations p = []") (auto simp: addLocation_def connects_def Let_def last_conv_nth)

lemma addLocations_connected:
  "successively (connects h) (locations p @ ls) \<Longrightarrow>
     addLocations h p ls = Inr (p\<lparr>locations := locations p @ ls\<rparr>)"
proof (induction ls arbitrary: p)
  case Nil
  then show ?case by simp
next
  case (Cons l ls)
  from Cons.prems have "locations p = [] \<or> connects h (last (locations p)) l"
    by (auto simp: successively_append_iff)
  then have a: "addLocation h p l = Inr (p\<lparr>locations := locations p @ [l]\<rparr>)"
    by (rule addLocation_connected)
  from Cons.prems
  have "successively (connects h) (locations (p\<lparr>locations := locations p @ [l]\<rparr>) @ ls)"
    by simp
  from Cons.IH[OF this] a show ?case by simp
qed

lemma materialize_chain:
  assumes "successively (connects h) (rev (chain w))"
  shows "addLocations h Path_init (rev (collect (previousWalker w) [startLocation w]))
           = Inr \<lparr>locations = rev (chain w)\<rparr>"
  using addLocations_connected[of h Path_init "rev (chain w)"] assms
  by (simp add: collect_previous Path_init_def del: successively_rev)

lemma extends_spawn: "extends h (Walker c (Some w)) e p \<Longrightarrow> extends h w e p"
  by (auto simp: extends_def)

text \<open>
  On a walker whose chain is a route without repetition, \<open>fanout\<close> and its loop
  return: they append paths to the list and leave the store as it is.
\<close>

lemma fanout_sound:
  fixes w :: "('v::finite) Walker"
  shows "successively (connects h) (rev (chain w)) \<Longrightarrow> distinct (chain w) \<Longrightarrow>
      \<exists>new. fanout w paths e h = Inr (paths @ new, h) \<and> (\<forall>p\<in>set new. extends h w e p)"
    and "successively (connects h) (rev (chain w)) \<Longrightarrow> distinct (chain w) \<Longrightarrow>
      \<exists>new. fanout_loop w i paths e h = Inr (paths @ new, h) \<and> (\<forall>p\<in>set new. extends h w e p)"
proof (induction w paths e h and w i paths e h rule: fanout_fanout_loop.induct)
  case (1 self paths endLocation h)
  show ?case
  proof (cases "startLocation self = endLocation")
    case True
    have "extends h self endLocation \<lparr>locations = rev (chain self)\<rparr>"
      using 1(2,3) True by (simp add: extends_def last_rev del: successively_rev)
    with True materialize_chain[OF 1(2)] show ?thesis by simp
  next
    case False
    with 1(1)[OF False 1(2,3)] show ?thesis by simp
  qed
next
  case (2 self i paths endLocation h)
  let ?cs = "getConnectedLocations h (startLocation self)"
  show ?case
  proof (cases "i < length ?cs")
    case False
    then show ?thesis by simp
  next
    case inr: True
    let ?c = "?cs ! i"
    show ?thesis
    proof (cases "isVisited self ?c")
      case True
      with inr 2(3)[OF refl inr refl _ 2(4,5)] show ?thesis by simp
    next
      case False
      have v: "successively (connects h) (rev (chain (Walker ?c (Some self))))"
        using 2(4) inr by (simp add: successively_append_iff last_rev connects_def del: successively_rev)
      have d: "distinct (chain (Walker ?c (Some self)))"
        using 2(5) False by (simp add: isVisited_chain)
      from 2(1)[OF refl inr refl False v d] obtain new1 where
        r: "fanout (Walker ?c (Some self)) paths endLocation h = Inr (paths @ new1, h)"
        and g1: "\<forall>p\<in>set new1. extends h (Walker ?c (Some self)) endLocation p" by blast
      from 2(2)[OF refl inr refl False r refl 2(4,5)] obtain new2 where
        l: "fanout_loop self (Suc i) (paths @ new1) endLocation h = Inr ((paths @ new1) @ new2, h)"
        and g2: "\<forall>p\<in>set new2. extends h self endLocation p" by blast
      from g1 g2 have "\<forall>p\<in>set (new1 @ new2). extends h self endLocation p"
        by (auto dest: extends_spawn)
      moreover from inr False r l
      have "fanout_loop self i paths endLocation h = Inr (paths @ (new1 @ new2), h)"
        by simp
      ultimately show ?thesis by blast
    qed
  qed
qed

section \<open>The walk of \<^verbatim>\<open>main\<close>\<close>

lemma main_graph_connections:
  "getConnectedLocations main_graph home = [shop, park, library]"
  "getConnectedLocations main_graph shop = [park]"
  "getConnectedLocations main_graph park = [school, home, library]"
  "getConnectedLocations main_graph library = [park, school]"
  "getConnectedLocations main_graph school = []"
  by (simp_all add: main_graph_def Location_init_def connectTo_def getConnectedLocations_def)

lemma main_graph_names:
  "getName main_graph home = ''Home''"
  "getName main_graph shop = ''Shop''"
  "getName main_graph park = ''Park''"
  "getName main_graph library = ''Library''"
  "getName main_graph school = ''School''"
  by (simp_all add: main_graph_def Location_init_def connectTo_def getName_def)

lemma walk_main_graph:
  "walk (Walker home None) school main_graph =
     Inr ([\<lparr>locations = [home, shop, park, school]\<rparr>,
           \<lparr>locations = [home, shop, park, library, school]\<rparr>,
           \<lparr>locations = [home, park, school]\<rparr>,
           \<lparr>locations = [home, park, library, school]\<rparr>,
           \<lparr>locations = [home, library, park, school]\<rparr>,
           \<lparr>locations = [home, library, school]\<rparr>], main_graph)"
  by (simp add: walk_def main_graph_connections Let_def addLocation_def Path_init_def)

text \<open>
  C1 (as amended). On the graph of \<^verbatim>\<open>main\<close>, \<^verbatim>\<open>Walker(home).walk(school)\<close> returns
  six paths and no others: the five routes Home-Park-School, Home-Library-School,
  Home-Park-Library-School, Home-Shop-Park-School, Home-Shop-Park-Library-School, and
  Home-Library-Park-School (\<^verbatim>\<open>library.connectTo(park)\<close> and
  \<^verbatim>\<open>park.connectTo(school)\<close> are both in \<^verbatim>\<open>main\<close>).
\<close>

theorem main_walk_six_paths:
  "\<exists>ps. walk (Walker home None) school main_graph = Inr (ps, main_graph) \<and>
     route_names main_graph ps =
       {#[''Home'', ''Park'', ''School''], [''Home'', ''Library'', ''School''],
         [''Home'', ''Park'', ''Library'', ''School''], [''Home'', ''Shop'', ''Park'', ''School''],
         [''Home'', ''Shop'', ''Park'', ''Library'', ''School''],
         [''Home'', ''Library'', ''Park'', ''School'']#}"
  unfolding walk_main_graph
  by (simp add: route_names_def main_graph_names)

text \<open>
  C1 as stated fails: the walk returns the six paths below, in this order, and their
  routes are not the multiset of the five routes of the claim.
\<close>

theorem main_walk_five_paths_counterexample:
  "walk (Walker home None) school main_graph =
     Inr ([\<lparr>locations = [home, shop, park, school]\<rparr>,
           \<lparr>locations = [home, shop, park, library, school]\<rparr>,
           \<lparr>locations = [home, park, school]\<rparr>,
           \<lparr>locations = [home, park, library, school]\<rparr>,
           \<lparr>locations = [home, library, park, school]\<rparr>,
           \<lparr>locations = [home, library, school]\<rparr>], main_graph) \<and>
   route_names main_graph
         [\<lparr>locations = [home, shop, park, school]\<rparr>,
           \<lparr>locations = [home, shop, park, library, school]\<rparr>,
           \<lparr>locations = [home, park, school]\<rparr>,
           \<lparr>locations = [home, park, library, school]\<rparr>,
           \<lparr>locations = [home, library, park, school]\<rparr>,
           \<lparr>locations = [home, library, school]\<rparr>] \<noteq>
       {#[''Home'', ''Park'', ''School''], [''Home'', ''Library'', ''School''],
         [''Home'', ''Park'', ''Library'', ''School''], [''Home'', ''Shop'', ''Park'', ''School''],
         [''Home'', ''Shop'', ''Park'', ''Library'', ''School'']#}"
  unfolding walk_main_graph
  by (simp add: route_names_def main_graph_names)

section \<open>Path: adding a location and the distance\<close>

text \<open>
  C5. \<open>addLocation\<close> fails with the assertion exactly when the path is not empty and
  the location is not among the connected locations of the last location of the path;
  on the empty path every location is accepted; and whenever it does not fail, the
  location is appended at the end.
\<close>

theorem addLocation_assertion:
  "(addLocation h p l = Inl AssertionError \<longleftrightarrow>
      locations p \<noteq> [] \<and> l \<notin> set (getConnectedLocations h (last (locations p)))) \<and>
   (locations p = [] \<longrightarrow> addLocation h p l = Inr (p\<lparr>locations := [l]\<rparr>)) \<and>
   (addLocation h p l \<noteq> Inl AssertionError \<longrightarrow>
      addLocation h p l = Inr (p\<lparr>locations := locations p @ [l]\<rparr>))"
proof (cases "locations p = []")
  case True
  then show ?thesis by (simp add: addLocation_def)
next
  case False
  then have "locations p ! (length (locations p) - 1) = last (locations p)"
    by (simp add: last_conv_nth)
  with False show ?thesis by (simp add: addLocation_def Let_def)
qed

theorem addLocation_assertion_witness:
  "addLocation main_graph \<lparr>locations = [home, shop]\<rparr> library = Inl AssertionError \<and>
   addLocation main_graph \<lparr>locations = []\<rparr> library = Inr \<lparr>locations = [library]\<rparr> \<and>
   addLocation main_graph \<lparr>locations = [home, shop]\<rparr> park = Inr \<lparr>locations = [home, shop, park]\<rparr>"
proof -
  have "addLocation main_graph \<lparr>locations = [home, shop]\<rparr> library = Inl AssertionError"
    using addLocation_assertion[of main_graph "\<lparr>locations = [home, shop]\<rparr>" library, THEN conjunct1]
    by (simp add: main_graph_connections)
  moreover
  have "addLocation main_graph \<lparr>locations = []\<rparr> library = Inr \<lparr>locations = [library]\<rparr>"
    using addLocation_assertion[of main_graph "\<lparr>locations = []\<rparr>" library, THEN conjunct2, THEN conjunct1]
    by simp
  moreover
  have "addLocation main_graph \<lparr>locations = [home, shop]\<rparr> park \<noteq> Inl AssertionError"
    using addLocation_assertion[of main_graph "\<lparr>locations = [home, shop]\<rparr>" park, THEN conjunct1]
    by (simp add: main_graph_connections)
  then have "addLocation main_graph \<lparr>locations = [home, shop]\<rparr> park = Inr \<lparr>locations = [home, shop, park]\<rparr>"
    using addLocation_assertion[of main_graph "\<lparr>locations = [home, shop]\<rparr>" park, THEN conjunct2, THEN conjunct2]
    by simp
  ultimately show ?thesis by blast
qed

lemma fold_add_sum:
  fixes f :: "nat \<Rightarrow> real"
  shows "fold (\<lambda>i d. d + f i) [0..<n] d0 = d0 + (\<Sum>i<n. f i)"
  by (induction n) simp_all

lemma getDistance_eq_sum:
  "getDistance h p =
     (\<Sum>i<length (locations p) - 1. distanceTo h (locations p ! i) (locations p ! Suc i))"
proof -
  have "nat (int (length (locations p)) - 1) = length (locations p) - 1" by simp
  then show ?thesis by (simp add: getDistance_def fold_add_sum)
qed

text \<open>
  C7. The distance of a path is the sum of \<open>distanceTo\<close> over the consecutive pairs
  of its locations (the pair at positions \<open>i\<close> and \<open>i + 1\<close>, for every \<open>i\<close> below
  the length minus one), and it is 0 for a path of length 0 or 1.
\<close>

theorem getDistance_sum:
  "getDistance h p =
     (\<Sum>i<length (locations p) - 1. distanceTo h (locations p ! i) (locations p ! Suc i)) \<and>
   (length (locations p) \<le> 1 \<longrightarrow> getDistance h p = 0)"
  by (simp add: getDistance_eq_sum)

lemma distanceTo_home_shop: "distanceTo main_graph home shop = 10"
proof -
  have "sqrt ((10::real)\<^sup>2) = 10" by simp
  then show ?thesis
    by (simp add: distanceTo_def main_graph_def Location_init_def connectTo_def)
qed

theorem getDistance_sum_witness:
  "getDistance main_graph \<lparr>locations = [home, shop]\<rparr> = 10 \<and>
   length (locations \<lparr>locations = [home]\<rparr>) \<le> 1 \<and>
   getDistance main_graph \<lparr>locations = [home]\<rparr> = 0"
  using getDistance_sum[of main_graph "\<lparr>locations = [home, shop]\<rparr>"]
    getDistance_sum[of main_graph "\<lparr>locations = [home]\<rparr>"]
  by (simp add: distanceTo_home_shop)

section \<open>Walking to the start location\<close>

text \<open>
  C3. For every location \<open>s\<close> and every store (whatever the connections of \<open>s\<close>
  are), the walk from \<open>s\<close> to \<open>s\<close> returns exactly one path, the path of \<open>s\<close>
  alone, whose distance is 0, and the root frame makes no recursive call.
\<close>

theorem walk_to_start:
  "walk (Walker s None) s h = Inr ([\<lparr>locations = [s]\<rparr>], h) \<and>
   getDistance h \<lparr>locations = [s]\<rparr> = 0 \<and>
   (\<forall>w. \<not> spawns h s (Walker s None) w)"
  by (auto simp: walk_def Path_init_def addLocation_def getDistance_def elim: spawns.cases)

theorem walk_to_start_witness:
  "getConnectedLocations main_graph home = [shop, park, library] \<and>
   walk (Walker home None) home main_graph = Inr ([\<lparr>locations = [home]\<rparr>], main_graph) \<and>
   getDistance main_graph \<lparr>locations = [home]\<rparr> = 0"
  using walk_to_start[of home main_graph] by (simp add: main_graph_connections)

section \<open>The paths of a walk\<close>

lemma walk_root:
  fixes s :: "'v::finite"
  shows "\<exists>ps. walk (Walker s None) e h = Inr (ps, h) \<and>
           (\<forall>p\<in>set ps. extends h (Walker s None) e p)"
  using fanout_sound(1)[of h "Walker s None" "[]" e] by (simp add: walk_def)

lemma route_reachable:
  "successively (connects h) xs \<Longrightarrow> xs \<noteq> [] \<Longrightarrow> reachable h (hd xs) (last xs)"
proof (induction xs rule: rev_induct)
  case Nil
  then show ?case by simp
next
  case (snoc c xs)
  show ?case
  proof (cases "xs = []")
    case True
    then show ?thesis by (simp add: reachable_refl)
  next
    case False
    with snoc.prems have "successively (connects h) xs" and "connects h (last xs) c"
      by (simp_all add: successively_append_iff)
    with snoc.IH False have "reachable h (hd xs) (last xs)"
      and "c \<in> set (getConnectedLocations h (last xs))"
      by (simp_all add: connects_def)
    then have "reachable h (hd xs) c" by (rule reachable_step)
    with False show ?thesis by simp
  qed
qed

lemma extends_root:
  assumes "extends h (Walker s None) e p"
  shows "locations p \<noteq> []" and "hd (locations p) = s" and "last (locations p) = e"
    and "distinct (locations p)" and "successively (connects h) (locations p)"
  using assms by (auto simp: extends_def)

text \<open>
  C2. For every finite graph, start location \<open>s\<close> and end location \<open>e\<close>, the walk
  returns, and every path it returns begins at \<open>s\<close>, ends at \<open>e\<close>, repeats no
  location, and each of its locations but the first is among the connected locations
  of the one before it.
\<close>

theorem walk_paths_simple:
  fixes s :: "'v::finite"
  shows "\<exists>ps. walk (Walker s None) e h = Inr (ps, h) \<and>
     (\<forall>p\<in>set ps. locations p \<noteq> [] \<and> hd (locations p) = s \<and> last (locations p) = e \<and>
        distinct (locations p) \<and>
        (\<forall>i. Suc i < length (locations p) \<longrightarrow>
           locations p ! Suc i \<in> set (getConnectedLocations h (locations p ! i))))"
proof -
  from walk_root[of s e h] obtain ps where
    w: "walk (Walker s None) e h = Inr (ps, h)"
    and g: "\<forall>p\<in>set ps. extends h (Walker s None) e p" by blast
  have "locations p \<noteq> [] \<and> hd (locations p) = s \<and> last (locations p) = e \<and>
        distinct (locations p) \<and>
        (\<forall>i. Suc i < length (locations p) \<longrightarrow>
           locations p ! Suc i \<in> set (getConnectedLocations h (locations p ! i)))"
    if "p \<in> set ps" for p
  proof -
    from that g have e: "extends h (Walker s None) e p" by blast
    from extends_root(5)[OF e]
    have "\<forall>i. Suc i < length (locations p) \<longrightarrow>
           locations p ! Suc i \<in> set (getConnectedLocations h (locations p ! i))"
      by (simp add: successively_conv_nth connects_def)
    with extends_root(1-4)[OF e] show ?thesis by blast
  qed
  with w show ?thesis by blast
qed

theorem walk_paths_simple_witness:
  "walk (Walker home None) school main_graph =
     Inr ([\<lparr>locations = [home, shop, park, school]\<rparr>,
           \<lparr>locations = [home, shop, park, library, school]\<rparr>,
           \<lparr>locations = [home, park, school]\<rparr>,
           \<lparr>locations = [home, park, library, school]\<rparr>,
           \<lparr>locations = [home, library, park, school]\<rparr>,
           \<lparr>locations = [home, library, school]\<rparr>], main_graph) \<and>
   distinct [home, shop, park, library, school] \<and>
   park \<in> set (getConnectedLocations main_graph shop) \<and>
   library \<in> set (getConnectedLocations main_graph park) \<and>
   school \<in> set (getConnectedLocations main_graph library)"
proof -
  let ?p = "\<lparr>locations = [home, shop, park, library, school]\<rparr>"
  from walk_paths_simple[of home school main_graph] obtain ps where
    w: "walk (Walker home None) school main_graph = Inr (ps, main_graph)"
    and g: "\<forall>p\<in>set ps. locations p \<noteq> [] \<and> hd (locations p) = home \<and>
        last (locations p) = school \<and> distinct (locations p) \<and>
        (\<forall>i. Suc i < length (locations p) \<longrightarrow>
           locations p ! Suc i \<in> set (getConnectedLocations main_graph (locations p ! i)))"
    by blast
  from w have "?p \<in> set ps" by (auto simp: walk_main_graph)
  with g have d: "distinct (locations ?p)"
    and c: "\<forall>i. Suc i < length (locations ?p) \<longrightarrow>
           locations ?p ! Suc i \<in> set (getConnectedLocations main_graph (locations ?p ! i))"
    by blast+
  from c[rule_format, of 1] c[rule_format, of 2] c[rule_format, of 3] d
  show ?thesis by (simp add: walk_main_graph)
qed

text \<open>
  C4. For every finite graph, if \<open>e\<close> is not reachable from \<open>s\<close> along connections,
  the walk from \<open>s\<close> to \<open>e\<close> returns the empty list: it raises no error.
\<close>

theorem walk_unreachable:
  fixes s :: "'v::finite"
  shows "\<not> reachable h s e \<Longrightarrow> walk (Walker s None) e h = Inr ([], h)"
proof -
  assume n: "\<not> reachable h s e"
  from walk_root[of s e h] obtain ps where
    w: "walk (Walker s None) e h = Inr (ps, h)"
    and g: "\<forall>p\<in>set ps. extends h (Walker s None) e p" by blast
  have "ps = []"
  proof (rule ccontr)
    assume "ps \<noteq> []"
    then obtain p where "p \<in> set ps" by (cases ps) auto
    with g have e: "extends h (Walker s None) e p" by blast
    from route_reachable[OF extends_root(5)[OF e] extends_root(1)[OF e]]
    have "reachable h s e" by (simp add: extends_root(2,3)[OF e])
    with n show False by contradiction
  qed
  with w show ?thesis by simp
qed

lemma main_graph_from_school: "reachable main_graph a b \<Longrightarrow> a = school \<Longrightarrow> b = school"
  by (induction rule: reachable.induct) (simp_all add: main_graph_connections)

theorem walk_unreachable_witness:
  "\<not> reachable main_graph school home \<and>
   walk (Walker school None) home main_graph = Inr ([], main_graph)"
proof -
  have n: "\<not> reachable main_graph school home"
    using main_graph_from_school[of school home] by auto
  from walk_unreachable[OF n] n show ?thesis by simp
qed

section \<open>The frames of a walk\<close>

lemma spawns_chain:
  assumes "spawns h e w w'"
  shows "\<not> isVisited w (startLocation w')" and "chain w' = startLocation w' # chain w"
    and "connects h (startLocation w) (startLocation w')"
  using assms by (auto elim!: spawns.cases simp: connects_def)

text \<open>
  \<open>spawns\<close> holds of every recursive call in the definition of \<open>fanout\<close>: a call
  of \<open>fanout\<close> from the loop of a frame that is not at the end location.
\<close>

lemma fanout_call_spawns:
  assumes "fanout_fanout_loop_rel (Inl (w', ps', e', h')) (Inr (w, i, ps, e, h))"
    and "startLocation w \<noteq> e"
  shows "spawns h e w w'"
  using assms by (auto elim!: fanout_fanout_loop_rel.cases intro: spawn)

text \<open>
  The chain of every frame of a walk from a root walker is a route without
  repetition, read from the root.
\<close>

lemma spawned_route:
  assumes "(spawns h e)\<^sup>*\<^sup>* (Walker s None) w"
  shows "successively (connects h) (rev (chain w)) \<and> distinct (chain w)"
  using assms
proof (induction rule: rtranclp_induct)
  case base
  then show ?case by simp
next
  case (step w w')
  from spawns_chain[OF step.hyps(2)] step.IH show ?case
    by (simp add: successively_append_iff last_rev isVisited_chain del: successively_rev)
qed

lemma distinct_length_le_card:
  fixes xs :: "('v::finite) list"
  shows "distinct xs \<Longrightarrow> length xs \<le> card (UNIV :: 'v set)"
  using card_mono[of "UNIV :: 'v set" "set xs"] by (simp add: distinct_card)

text \<open>
  The calls of \<open>addLocation\<close> in the loop that builds a path from a route: the
  path so far is the first \<open>n\<close> locations, and location \<open>n\<close> is added.
\<close>

lemma addLocation_route_step:
  assumes "successively (connects h) xs" and "n < length xs"
  shows "addLocation h \<lparr>locations = take n xs\<rparr> (xs ! n) = Inr \<lparr>locations = take (Suc n) xs\<rparr>"
proof -
  have "locations \<lparr>locations = take n xs\<rparr> = [] \<or>
        connects h (last (locations \<lparr>locations = take n xs\<rparr>)) (xs ! n)"
  proof (cases n)
    case 0
    then show ?thesis by simp
  next
    case (Suc m)
    with assms have "connects h (xs ! m) (xs ! Suc m)" by (simp add: successively_nth)
    moreover from Suc assms have "last (take n xs) = xs ! m"
      by (simp add: take_Suc_conv_app_nth)
    ultimately show ?thesis using Suc by simp
  qed
  from addLocation_connected[OF this] assms(2) show ?thesis
    by (simp add: take_Suc_conv_app_nth)
qed

lemma wfP_spawns: "wfP (\<lambda>w' w. spawns h e w (w' :: ('v::finite) Walker))"
proof (rule wfp_if_convertible_to_nat)
  fix w' w :: "'v Walker"
  assume "spawns h e w w'"
  from spawns_chain(1,2)[OF this] card_unvisited_less[of w "startLocation w'"]
  show "card (UNIV - set (chain w')) < card (UNIV - set (chain w))" by simp
qed

lemma main_spawn_park:
  "spawns main_graph school (Walker home None) (Walker park (Some (Walker home None)))"
  by (rule spawn[where i = 1]) (simp_all add: main_graph_connections)

lemma main_spawn_park_school:
  "spawns main_graph school (Walker park (Some (Walker home None)))
     (Walker school (Some (Walker park (Some (Walker home None)))))"
  by (rule spawn[where i = 0]) (simp_all add: main_graph_connections)

lemma main_spawned_school:
  "(spawns main_graph school)\<^sup>*\<^sup>* (Walker home None)
     (Walker school (Some (Walker park (Some (Walker home None)))))"
  using main_spawn_park main_spawn_park_school by (blast intro: rtranclp.intros)

text \<open>
  C6. In every walk from a root walker, on every finite graph, the assertion of
  \<open>addLocation\<close> does not fire: the walk does not end in \<open>AssertionError\<close>, and
  at every frame of the walk (in particular at the frames at the end location, which
  build a path) the loop over the reversed list of collected locations succeeds, each
  of its calls of \<open>addLocation\<close> appending the next location to the path so far:
  every location of the list but the first is among the connected locations of the
  one appended before it.
\<close>

theorem walk_never_asserts:
  fixes s :: "'v::finite"
  shows "walk (Walker s None) e h \<noteq> Inl AssertionError \<and>
    (\<forall>w. (spawns h e)\<^sup>*\<^sup>* (Walker s None) w \<longrightarrow>
       addLocations h Path_init (rev (collect (previousWalker w) [startLocation w]))
         = Inr \<lparr>locations = rev (chain w)\<rparr> \<and>
       (\<forall>n<length (chain w).
          addLocation h \<lparr>locations = take n (rev (chain w))\<rparr> (rev (chain w) ! n)
            = Inr \<lparr>locations = take (Suc n) (rev (chain w))\<rparr>) \<and>
       (\<forall>n. Suc n < length (chain w) \<longrightarrow>
          rev (chain w) ! Suc n \<in> set (getConnectedLocations h (rev (chain w) ! n))))"
proof -
  from walk_root[of s e h] have "walk (Walker s None) e h \<noteq> Inl AssertionError" by auto
  moreover
  have "addLocations h Path_init (rev (collect (previousWalker w) [startLocation w]))
         = Inr \<lparr>locations = rev (chain w)\<rparr> \<and>
       (\<forall>n<length (chain w).
          addLocation h \<lparr>locations = take n (rev (chain w))\<rparr> (rev (chain w) ! n)
            = Inr \<lparr>locations = take (Suc n) (rev (chain w))\<rparr>) \<and>
       (\<forall>n. Suc n < length (chain w) \<longrightarrow>
          rev (chain w) ! Suc n \<in> set (getConnectedLocations h (rev (chain w) ! n)))"
    if "(spawns h e)\<^sup>*\<^sup>* (Walker s None) w" for w
  proof -
    from spawned_route[OF that] have r: "successively (connects h) (rev (chain w))" ..
    then have "\<forall>n. Suc n < length (chain w) \<longrightarrow>
          rev (chain w) ! Suc n \<in> set (getConnectedLocations h (rev (chain w) ! n))"
      by (simp add: successively_conv_nth connects_def del: successively_rev)
    with addLocation_route_step[OF r] materialize_chain[OF r] show ?thesis by simp
  qed
  ultimately show ?thesis by blast
qed

theorem walk_never_asserts_witness:
  "(spawns main_graph school)\<^sup>*\<^sup>* (Walker home None)
     (Walker school (Some (Walker park (Some (Walker home None))))) \<and>
   walk (Walker home None) school main_graph \<noteq> Inl AssertionError \<and>
   addLocations main_graph Path_init [home, park, school] = Inr \<lparr>locations = [home, park, school]\<rparr> \<and>
   addLocation main_graph \<lparr>locations = [home, park]\<rparr> school = Inr \<lparr>locations = [home, park, school]\<rparr> \<and>
   school \<in> set (getConnectedLocations main_graph park)"
proof -
  let ?w = "Walker school (Some (Walker park (Some (Walker home None))))"
  from walk_never_asserts[of home school main_graph]
  have a: "walk (Walker home None) school main_graph \<noteq> Inl AssertionError"
    and b: "\<forall>w. (spawns main_graph school)\<^sup>*\<^sup>* (Walker home None) w \<longrightarrow>
       addLocations main_graph Path_init (rev (collect (previousWalker w) [startLocation w]))
         = Inr \<lparr>locations = rev (chain w)\<rparr> \<and>
       (\<forall>n<length (chain w).
          addLocation main_graph \<lparr>locations = take n (rev (chain w))\<rparr> (rev (chain w) ! n)
            = Inr \<lparr>locations = take (Suc n) (rev (chain w))\<rparr>) \<and>
       (\<forall>n. Suc n < length (chain w) \<longrightarrow>
          rev (chain w) ! Suc n \<in> set (getConnectedLocations main_graph (rev (chain w) ! n)))"
    by blast+
  from b[rule_format, OF main_spawned_school]
  have c: "addLocations main_graph Path_init (rev (collect (previousWalker ?w) [startLocation ?w]))
         = Inr \<lparr>locations = rev (chain ?w)\<rparr>"
    and d: "\<forall>n<length (chain ?w).
          addLocation main_graph \<lparr>locations = take n (rev (chain ?w))\<rparr> (rev (chain ?w) ! n)
            = Inr \<lparr>locations = take (Suc n) (rev (chain ?w))\<rparr>"
    and m: "\<forall>n. Suc n < length (chain ?w) \<longrightarrow>
          rev (chain ?w) ! Suc n \<in> set (getConnectedLocations main_graph (rev (chain ?w) ! n))"
    by blast+
  from d[rule_format, of 2]
  have "addLocation main_graph \<lparr>locations = [home, park]\<rparr> school = Inr \<lparr>locations = [home, park, school]\<rparr>"
    by (simp add: numeral_2_eq_2)
  moreover from c
  have "addLocations main_graph Path_init [home, park, school] = Inr \<lparr>locations = [home, park, school]\<rparr>"
    by simp
  moreover from m[rule_format, of 1]
  have "school \<in> set (getConnectedLocations main_graph park)" by simp
  ultimately show ?thesis using a main_spawned_school by blast
qed

text \<open>
  C8. On every finite graph, cycles and self-loops included, the walk from a root
  walker returns; the recursive calls of \<open>fanout\<close> are well-founded (there is no
  infinite sequence of nested calls); every call is on a connected location that the
  calling frame has not visited, and its chain is the caller's chain with that location
  in front; and the chain of every frame of the walk has no repetition, so its length,
  the depth of the recursion, is at most the number of locations.
\<close>

theorem walk_terminates:
  fixes s :: "'v::finite"
  shows "(\<exists>ps. walk (Walker s None) e h = Inr (ps, h)) \<and>
    wfP (\<lambda>w' w. spawns h e w w') \<and>
    (\<forall>w w'. spawns h e w w' \<longrightarrow>
       \<not> isVisited w (startLocation w') \<and> chain w' = startLocation w' # chain w) \<and>
    (\<forall>w. (spawns h e)\<^sup>*\<^sup>* (Walker s None) w \<longrightarrow>
       distinct (chain w) \<and> length (chain w) \<le> card (UNIV :: 'v set))"
proof -
  from walk_root[of s e h] have "\<exists>ps. walk (Walker s None) e h = Inr (ps, h)" by blast
  moreover have "distinct (chain w) \<and> length (chain w) \<le> card (UNIV :: 'v set)"
    if "(spawns h e)\<^sup>*\<^sup>* (Walker s None) w" for w
    using spawned_route[OF that] by (simp add: distinct_length_le_card)
  ultimately show ?thesis using wfP_spawns[of h e] by (blast dest: spawns_chain(1,2))
qed

theorem walk_terminates_witness:
  "spawns main_graph school (Walker home None) (Walker park (Some (Walker home None))) \<and>
   \<not> isVisited (Walker home None) park \<and>
   chain (Walker park (Some (Walker home None))) = [park, home] \<and>
   length (chain (Walker school (Some (Walker park (Some (Walker home None)))))) \<le> card (UNIV :: place set) \<and>
   (\<exists>ps. walk (Walker home None) school main_graph = Inr (ps, main_graph))"
proof -
  let ?w = "Walker school (Some (Walker park (Some (Walker home None))))"
  from walk_terminates[of home school main_graph]
  have a: "\<exists>ps. walk (Walker home None) school main_graph = Inr (ps, main_graph)"
    and b: "\<forall>w w'. spawns main_graph school w w' \<longrightarrow>
       \<not> isVisited w (startLocation w') \<and> chain w' = startLocation w' # chain w"
    and c: "\<forall>w. (spawns main_graph school)\<^sup>*\<^sup>* (Walker home None) w \<longrightarrow>
       distinct (chain w) \<and> length (chain w) \<le> card (UNIV :: place set)"
    by blast+
  from b[rule_format, OF main_spawn_park]
  have "\<not> isVisited (Walker home None) park"
    and "chain (Walker park (Some (Walker home None))) = [park, home]" by simp_all
  moreover from c[rule_format, OF main_spawned_school]
  have "length (chain ?w) \<le> card (UNIV :: place set)" by blast
  ultimately show ?thesis using a main_spawn_park by blast
qed

section \<open>Two walks in one store\<close>

lemma Path_objects_upd_upd:
  "W\<lparr>Path_objects := (Path_objects W)(r := p)\<rparr>\<lparr>Path_objects :=
      (Path_objects (W\<lparr>Path_objects := (Path_objects W)(r := p)\<rparr>))(r := q)\<rparr>
   = W\<lparr>Path_objects := (Path_objects W)(r := q)\<rparr>"
  by (cases W) simp

lemma addLocations_obj_eq:
  "addLocations_obj r ls W =
     (case addLocations (Location_objects W) (Path_objects W r) ls of
        Inl err \<Rightarrow> Inl err
      | Inr p \<Rightarrow> Inr (W\<lparr>Path_objects := (Path_objects W)(r := p)\<rparr>))"
proof (induction ls arbitrary: W)
  case Nil
  then show ?case by simp
next
  case (Cons l ls)
  show ?case
  proof (cases "addLocation (Location_objects W) (Path_objects W r) l")
    case (Inl err)
    then show ?thesis by (simp add: addLocation_obj_def)
  next
    case (Inr p)
    let ?W1 = "W\<lparr>Path_objects := (Path_objects W)(r := p)\<rparr>"
    from Inr have a: "addLocation_obj r l W = Inr ?W1" by (simp add: addLocation_obj_def)
    have b: "Location_objects ?W1 = Location_objects W" "Path_objects ?W1 r = p" by simp_all
    show ?thesis
    proof (cases "addLocations (Location_objects W) p ls")
      case (Inl err)
      with Inr a b Cons.IH[of ?W1] show ?thesis by simp
    next
      case q: (Inr q)
      with b Cons.IH[of ?W1]
      have "addLocations_obj r ls ?W1 =
              Inr (?W1\<lparr>Path_objects := (Path_objects ?W1)(r := q)\<rparr>)" by simp
      also have "\<dots> = Inr (W\<lparr>Path_objects := (Path_objects W)(r := q)\<rparr>)"
        by (simp only: Path_objects_upd_upd)
      finally show ?thesis using Inr a q by simp
    qed
  qed
qed

lemma alloc_paths_Nil [simp]: "alloc_paths [] W = W"
  by (cases W) (auto simp: alloc_paths_def fun_eq_iff)

lemma new_refs_Nil [simp]: "new_refs W [] = []"
  by (simp add: new_refs_def)

lemma alloc_paths_Locations [simp]: "Location_objects (alloc_paths new W) = Location_objects W"
  by (simp add: alloc_paths_def)

lemma alloc_paths_allocated [simp]: "allocated (alloc_paths new W) = allocated W + length new"
  by (simp add: alloc_paths_def)

lemma alloc_paths_append:
  "alloc_paths new2 (alloc_paths new1 W) = alloc_paths (new1 @ new2) W"
  by (cases W) (auto simp: alloc_paths_def fun_eq_iff nth_append)

lemma new_refs_append:
  "new_refs W new1 @ new_refs (alloc_paths new1 W) new2 = new_refs W (new1 @ new2)"
  using upt_add_eq_append[of "allocated W" "allocated W + length new1" "length new2"]
  by (simp add: new_refs_def add.assoc)

lemma Path_new_upd:
  "(Path_new W)\<lparr>Path_objects := (Path_objects (Path_new W))(allocated W := p)\<rparr>
     = alloc_paths [p] W"
  by (cases W) (auto simp: Path_new_def alloc_paths_def fun_eq_iff)

lemma Path_new_object [simp]: "Path_objects (Path_new W) (allocated W) = Path_init"
  by (simp add: Path_new_def)

lemma alloc_paths_old:
  "r < allocated W \<Longrightarrow> Path_objects (alloc_paths new W) r = Path_objects W r"
  by (simp add: alloc_paths_def)

lemma alloc_paths_new:
  "n < length new \<Longrightarrow> Path_objects (alloc_paths new W) (allocated W + n) = new ! n"
  by (simp add: alloc_paths_def)

lemma routes_of_new: "routes_of (alloc_paths new W) (new_refs W new) = map locations new"
  by (auto simp: routes_of_def new_refs_def alloc_paths_new intro!: nth_equalityI)

lemma routes_of_old:
  "\<forall>r\<in>set rs. r < allocated W \<Longrightarrow> routes_of (alloc_paths new W) rs = routes_of W rs"
  by (simp add: routes_of_def alloc_paths_old)

text \<open>A call of \<open>fanout\<close> that returns has appended to the list and kept the store.\<close>

lemma fanout_appends:
  "fanout w ps e h = Inr (ps', h') \<Longrightarrow> h' = h \<and> (\<exists>new. ps' = ps @ new)"
  "fanout_loop w i ps e h = Inr (ps', h') \<Longrightarrow> h' = h \<and> (\<exists>new. ps' = ps @ new)"
proof (induction w ps e h and w i ps e h arbitrary: ps' h' and ps' h'
    rule: fanout_fanout_loop.induct)
  case (1 self paths endLocation h)
  show ?case
  proof (cases "startLocation self = endLocation")
    case True
    with "1.prems" show ?thesis by (auto simp: Let_def split: sum.splits)
  next
    case False
    with "1.prems" have "fanout_loop self 0 paths endLocation h = Inr (ps', h')" by simp
    from "1.IH"[OF False this] show ?thesis .
  qed
next
  case (2 self i paths endLocation h)
  let ?cs = "getConnectedLocations h (startLocation self)"
  show ?case
  proof (cases "i < length ?cs")
    case False
    with "2.prems" show ?thesis by simp
  next
    case inr: True
    show ?thesis
    proof (cases "isVisited self (?cs ! i)")
      case True
      with inr "2.prems" have "fanout_loop self (Suc i) paths endLocation h = Inr (ps', h')"
        by simp
      moreover from True have "\<not> \<not> isVisited self (?cs ! i)" by simp
      ultimately show ?thesis using "2.IH"(3)[OF refl inr refl] by blast
    next
      case False
      from inr False
      have "fanout_loop self i paths endLocation h =
          (case fanout (Walker (?cs ! i) (Some self)) paths endLocation h of
             Inl err \<Rightarrow> Inl err
           | Inr (paths', h') \<Rightarrow> fanout_loop self (Suc i) paths' endLocation h')"
        by (subst fanout_loop.simps) (simp add: Let_def del: fanout.simps fanout_loop.simps)
      with "2.prems" obtain ps1 h1 where
        r: "fanout (Walker (?cs ! i) (Some self)) paths endLocation h = Inr (ps1, h1)"
        and l: "fanout_loop self (Suc i) ps1 endLocation h1 = Inr (ps', h')"
        by (auto split: sum.splits simp del: fanout.simps fanout_loop.simps)
      from "2.IH"(1)[OF refl inr refl False r]
      obtain new1 where "h1 = h" and "ps1 = paths @ new1" by blast
      moreover from "2.IH"(2)[OF refl inr refl False r refl l]
      obtain new2 where "h' = h1" and "ps' = ps1 @ new2" by blast
      ultimately show ?thesis by simp
    qed
  qed
qed

lemma fanout_obj_fanout:
  fixes w :: "('v::finite) Walker"
  shows "fanout w ps e (Location_objects W) = Inr (ps @ new, Location_objects W) \<Longrightarrow>
      fanout_obj w prs e W = Inr (prs @ new_refs W new, alloc_paths new W)"
    and "fanout_loop w i ps e (Location_objects W) = Inr (ps @ new, Location_objects W) \<Longrightarrow>
      fanout_loop_obj w i prs e W = Inr (prs @ new_refs W new, alloc_paths new W)"
proof (induction w prs e W and w i prs e W arbitrary: ps new and ps new
    rule: fanout_obj_fanout_loop_obj.induct)
  case (1 self paths endLocation W)
  show ?case
  proof (cases "startLocation self = endLocation")
    case True
    let ?locs = "collect (previousWalker self) [startLocation self]"
    from True "1.prems" obtain path where
      a: "addLocations (Location_objects W) Path_init (rev ?locs) = Inr path"
      and n: "new = [path]"
      by (auto simp: Let_def split: sum.splits)
    from a have "addLocations_obj (allocated W) (rev ?locs) (Path_new W) = Inr (alloc_paths [path] W)"
      by (simp add: addLocations_obj_eq Path_new_upd)
    with True n show ?thesis by (simp add: Let_def new_refs_def)
  next
    case False
    with "1.prems" have "fanout_loop self 0 ps endLocation (Location_objects W)
        = Inr (ps @ new, Location_objects W)" by simp
    from "1.IH"[OF False this] False show ?thesis by simp
  qed
next
  case (2 self i paths endLocation W)
  let ?h = "Location_objects W"
  let ?cs = "getConnectedLocations ?h (startLocation self)"
  show ?case
  proof (cases "i < length ?cs")
    case False
    with "2.prems" show ?thesis by simp
  next
    case inr: True
    show ?thesis
    proof (cases "isVisited self (?cs ! i)")
      case True
      with inr "2.prems"
      have l: "fanout_loop self (Suc i) ps endLocation ?h = Inr (ps @ new, ?h)"
        by simp
      from True have nv: "\<not> \<not> isVisited self (?cs ! i)" by simp
      from "2.IH"(3)[OF refl inr refl nv l]
      have "fanout_loop_obj self (Suc i) paths endLocation W
          = Inr (paths @ new_refs W new, alloc_paths new W)" .
      with True inr show ?thesis by simp
    next
      case False
      from inr False
      have "fanout_loop self i ps endLocation ?h =
          (case fanout (Walker (?cs ! i) (Some self)) ps endLocation ?h of
             Inl err \<Rightarrow> Inl err
           | Inr (paths', h') \<Rightarrow> fanout_loop self (Suc i) paths' endLocation h')"
        by (subst fanout_loop.simps) (simp add: Let_def del: fanout.simps fanout_loop.simps)
      with "2.prems" obtain ps1 h1 where
        r: "fanout (Walker (?cs ! i) (Some self)) ps endLocation ?h = Inr (ps1, h1)"
        and l: "fanout_loop self (Suc i) ps1 endLocation h1 = Inr (ps @ new, ?h)"
        by (auto split: sum.splits simp del: fanout.simps fanout_loop.simps)
      from fanout_appends(1)[OF r] obtain new1 where h1: "h1 = ?h" and ps1: "ps1 = ps @ new1"
        by blast
      from fanout_appends(2)[OF l] ps1 obtain new2 where new: "new = new1 @ new2"
        by auto
      from r h1 ps1
      have r': "fanout (Walker (?cs ! i) (Some self)) ps endLocation ?h = Inr (ps @ new1, ?h)"
        by (simp del: fanout.simps fanout_loop.simps)
      from "2.IH"(1)[OF refl inr refl False r']
      have c: "fanout_obj (Walker (?cs ! i) (Some self)) paths endLocation W
          = Inr (paths @ new_refs W new1, alloc_paths new1 W)" .
      from l h1 ps1 new
      have l': "fanout_loop self (Suc i) (ps @ new1) endLocation
            (Location_objects (alloc_paths new1 W))
          = Inr ((ps @ new1) @ new2, Location_objects (alloc_paths new1 W))"
        by (simp del: fanout.simps fanout_loop.simps)
      from "2.IH"(2)[OF refl inr refl False c refl l']
      have "fanout_loop_obj self (Suc i) (paths @ new_refs W new1) endLocation (alloc_paths new1 W)
          = Inr ((paths @ new_refs W new1) @ new_refs (alloc_paths new1 W) new2,
                 alloc_paths new2 (alloc_paths new1 W))" .
      then have "fanout_loop_obj self (Suc i) (paths @ new_refs W new1) endLocation
            (alloc_paths new1 W)
          = Inr (paths @ new_refs W new, alloc_paths new W)"
        by (simp add: alloc_paths_append new_refs_append new
            del: fanout_obj.simps fanout_loop_obj.simps)
      moreover from inr False
      have "fanout_loop_obj self i paths endLocation W =
          (case fanout_obj (Walker (?cs ! i) (Some self)) paths endLocation W of
             Inl err \<Rightarrow> Inl err
           | Inr (paths', W') \<Rightarrow> fanout_loop_obj self (Suc i) paths' endLocation W')"
        by (subst fanout_loop_obj.simps)
          (simp add: Let_def del: fanout_obj.simps fanout_loop_obj.simps)
      ultimately show ?thesis using c
        by (simp del: fanout_obj.simps fanout_loop_obj.simps)
    qed
  qed
qed

lemma walk_obj_walk:
  fixes s :: "'v::finite"
  assumes "walk (Walker s None) e (Location_objects W) = Inr (ps, Location_objects W)"
  shows "walk_obj (Walker s None) e W = Inr (new_refs W ps, alloc_paths ps W)"
  using fanout_obj_fanout(1)[of "Walker s None" "[]" e W ps "[]"] assms
  by (simp add: walk_def walk_obj_def)

lemma walk_obj_main_world:
  "walk_obj (Walker home None) school main_world =
     Inr ([0, 1, 2, 3, 4, 5],
          alloc_paths [\<lparr>locations = [home, shop, park, school]\<rparr>,
            \<lparr>locations = [home, shop, park, library, school]\<rparr>,
            \<lparr>locations = [home, park, school]\<rparr>,
            \<lparr>locations = [home, park, library, school]\<rparr>,
            \<lparr>locations = [home, library, park, school]\<rparr>,
            \<lparr>locations = [home, library, school]\<rparr>] main_world)"
proof -
  have "Location_objects main_world = main_graph" by (simp add: main_world_def)
  with walk_obj_walk[of home school main_world] walk_main_graph
  have "walk_obj (Walker home None) school main_world =
     Inr (new_refs main_world [\<lparr>locations = [home, shop, park, school]\<rparr>,
            \<lparr>locations = [home, shop, park, library, school]\<rparr>,
            \<lparr>locations = [home, park, school]\<rparr>,
            \<lparr>locations = [home, park, library, school]\<rparr>,
            \<lparr>locations = [home, library, park, school]\<rparr>,
            \<lparr>locations = [home, library, school]\<rparr>],
          alloc_paths [\<lparr>locations = [home, shop, park, school]\<rparr>,
            \<lparr>locations = [home, shop, park, library, school]\<rparr>,
            \<lparr>locations = [home, park, school]\<rparr>,
            \<lparr>locations = [home, park, library, school]\<rparr>,
            \<lparr>locations = [home, library, park, school]\<rparr>,
            \<lparr>locations = [home, library, school]\<rparr>] main_world)"
    by simp
  moreover have "[0..<6] = [0, 1, 2, 3, 4, 5::nat]" by (simp add: upt_rec)
  ultimately show ?thesis by (simp add: new_refs_def main_world_def)
qed

text \<open>
  C9. Two calls of \<^verbatim>\<open>Walker(s).walk(e)\<close>, the second in the store that the
  first has left (which holds the Path objects of the first call), both return; the
  attributes of the Location objects are the same before and after each call; the two
  calls return different Path objects, the second call leaves the paths of the first
  as they were, and the location sequences of the two results are equal as multisets.
  The same holds for a call in any other store with the same Location objects,
  whatever Path objects it holds.
\<close>

theorem walk_twice_same_routes:
  fixes s :: "'v::finite"
  shows "\<exists>rs1 W1 rs2 W2.
    walk_obj (Walker s None) e W = Inr (rs1, W1) \<and>
    walk_obj (Walker s None) e W1 = Inr (rs2, W2) \<and>
    Location_objects W1 = Location_objects W \<and>
    Location_objects W2 = Location_objects W \<and>
    set rs1 \<inter> set rs2 = {} \<and>
    routes_of W2 rs1 = routes_of W1 rs1 \<and>
    mset (routes_of W2 rs1) = mset (routes_of W2 rs2) \<and>
    (\<forall>W'. Location_objects W' = Location_objects W \<longrightarrow>
       (\<exists>rs' W1'. walk_obj (Walker s None) e W' = Inr (rs', W1') \<and>
          Location_objects W1' = Location_objects W' \<and>
          mset (routes_of W1' rs') = mset (routes_of W1 rs1)))"
proof -
  from walk_root[of s e "Location_objects W"] obtain ps where
    w: "walk (Walker s None) e (Location_objects W) = Inr (ps, Location_objects W)" by blast
  let ?W1 = "alloc_paths ps W"
  let ?W2 = "alloc_paths ps ?W1"
  have any: "walk_obj (Walker s None) e W' = Inr (new_refs W' ps, alloc_paths ps W')"
    if "Location_objects W' = Location_objects W" for W'
    using walk_obj_walk[of s e W' ps] w that by simp
  have 1: "walk_obj (Walker s None) e W = Inr (new_refs W ps, ?W1)" by (rule any) simp
  have 2: "walk_obj (Walker s None) e ?W1 = Inr (new_refs ?W1 ps, ?W2)" by (rule any) simp
  have d: "set (new_refs W ps) \<inter> set (new_refs ?W1 ps) = {}"
    by (auto simp: new_refs_def)
  have o: "routes_of ?W2 (new_refs W ps) = routes_of ?W1 (new_refs W ps)"
    by (rule routes_of_old) (simp add: new_refs_def)
  have m: "mset (routes_of ?W2 (new_refs W ps)) = mset (routes_of ?W2 (new_refs ?W1 ps))"
    by (simp only: o routes_of_new)
  have g: "\<exists>rs' W1'. walk_obj (Walker s None) e W' = Inr (rs', W1') \<and>
          Location_objects W1' = Location_objects W' \<and>
          mset (routes_of W1' rs') = mset (routes_of ?W1 (new_refs W ps))"
    if "Location_objects W' = Location_objects W" for W'
    using any[OF that] by (simp add: routes_of_new)
  from 1 2 d o m g show ?thesis by (intro exI[of _ "new_refs W ps"] exI[of _ ?W1]
        exI[of _ "new_refs ?W1 ps"] exI[of _ ?W2]) simp
qed

theorem walk_twice_same_routes_witness:
  "\<exists>rs1 W1 rs2 W2.
     walk_obj (Walker home None) school main_world = Inr (rs1, W1) \<and>
     walk_obj (Walker home None) school W1 = Inr (rs2, W2) \<and>
     rs1 = [0, 1, 2, 3, 4, 5] \<and> allocated W1 = 6 \<and> W1 \<noteq> main_world \<and>
     Location_objects W2 = main_graph \<and>
     set rs1 \<inter> set rs2 = {} \<and>
     mset (routes_of W2 rs1) = mset (routes_of W2 rs2)"
proof -
  from walk_twice_same_routes[of home school main_world] obtain rs1 W1 rs2 W2 where
    a: "walk_obj (Walker home None) school main_world = Inr (rs1, W1)"
    and b: "walk_obj (Walker home None) school W1 = Inr (rs2, W2)"
    and c: "Location_objects W2 = Location_objects main_world"
    and d: "set rs1 \<inter> set rs2 = {}"
    and m: "mset (routes_of W2 rs1) = mset (routes_of W2 rs2)"
    by blast
  from a have r: "rs1 = [0, 1, 2, 3, 4, 5]" and n: "allocated W1 = 6"
    unfolding walk_obj_main_world by (auto simp: main_world_def)
  from n have "W1 \<noteq> main_world" by (auto simp: main_world_def)
  moreover from c have "Location_objects W2 = main_graph" by (simp add: main_world_def)
  ultimately show ?thesis using a b r n d m by blast
qed

section \<open>Locations are compared by identity\<close>

text \<open>
  C10. Let \<open>a\<close> and \<open>b\<close> be two distinct Location objects with the same name and
  the same coordinates. A frame at \<open>a\<close> reports \<open>b\<close> as visited only if \<open>b\<close> is on
  the chain of its previous walker; a frame at \<open>a\<close> in a walk to \<open>b\<close> does not
  build a path but goes on with the loop over the connected locations of \<open>a\<close>; and
  every path of the walk from \<open>a\<close> to \<open>b\<close> ends at \<open>b\<close> itself, not at \<open>a\<close>.
\<close>

theorem identity_not_attributes:
  fixes a :: "'v::finite"
  assumes "a \<noteq> b" and "name (h a) = name (h b)" and "x (h a) = x (h b)" and "y (h a) = y (h b)"
  shows "(isVisited (Walker a pw) b \<longleftrightarrow> (\<exists>w. pw = Some w \<and> b \<in> set (chain w))) \<and>
    fanout (Walker a pw) paths b h = fanout_loop (Walker a pw) 0 paths b h \<and>
    (\<exists>ps. walk (Walker a None) b h = Inr (ps, h) \<and>
       list_all (\<lambda>p. last (locations p) = b \<and> last (locations p) \<noteq> a) ps)"
proof -
  from assms(1) have "isVisited (Walker a pw) b \<longleftrightarrow> (\<exists>w. pw = Some w \<and> b \<in> set (chain w))"
    by (cases pw) (simp_all add: isVisited_chain)
  moreover from assms(1)
  have "fanout (Walker a pw) paths b h = fanout_loop (Walker a pw) 0 paths b h" by simp
  moreover from walk_root[of a b h] assms(1)
  have "\<exists>ps. walk (Walker a None) b h = Inr (ps, h) \<and>
       list_all (\<lambda>p. last (locations p) = b \<and> last (locations p) \<noteq> a) ps"
    by (auto simp: list_all_iff dest!: extends_root(3))
  ultimately show ?thesis by blast
qed

theorem identity_not_attributes_witness:
  "home \<noteq> shop \<and> name (twins home) = name (twins shop) \<and>
   x (twins home) = x (twins shop) \<and> y (twins home) = y (twins shop) \<and>
   \<not> isVisited (Walker home None) shop \<and>
   walk (Walker home None) shop twins = Inr ([\<lparr>locations = [home, shop]\<rparr>], twins)"
proof -
  have t: "home \<noteq> shop" "name (twins home) = name (twins shop)"
    "x (twins home) = x (twins shop)" "y (twins home) = y (twins shop)"
    by (simp_all add: twins_def Location_init_def connectTo_def)
  have c: "getConnectedLocations twins home = [shop]" "getConnectedLocations twins shop = []"
    by (simp_all add: twins_def Location_init_def connectTo_def getConnectedLocations_def)
  from identity_not_attributes[OF t, of None "[]"]
  have "\<not> isVisited (Walker home None) shop"
    and "fanout (Walker home None) [] shop twins = fanout_loop (Walker home None) 0 [] shop twins"
    by simp_all
  then have "\<not> isVisited (Walker home None) shop"
    and "walk (Walker home None) shop twins = Inr ([\<lparr>locations = [home, shop]\<rparr>], twins)"
    by (simp_all add: walk_def c Let_def addLocation_def Path_init_def)
  with t show ?thesis by blast
qed

end
